theory Spec2Isabelle
  imports Main "HOL-Library.Sublist" "HOL-Library.RBT"
begin

section \<open>OneMapHelper::keys and OneMapHelper::values\<close>

text \<open>
  The source (\<^verbatim>\<open>src/langs/StdLibs/one.hpp\<close>, lines 14-26):
  \<^verbatim>\<open>
  template<typename K, typename V> static vector<K> keys(const map<K,V>& map) {
      vector<K> result;
      for(auto it = map.begin(); it != map.end(); ++it)
          result.push_back(it->first);
      return result;
  }
  template<typename K, typename V> static vector<V> values(const map<K,V>& map) {
      vector<V> result;
      for(auto it = map.begin(); it != map.end(); ++it)
          result.push_back(it->second);
      return result;
  }
  \<close>
  A \<^verbatim>\<open>std::map<K,V>\<close> is a balanced search tree with one entry per key, ordered by
  \<^verbatim>\<open>std::less<K>\<close>; it is a red-black tree \<^typ>\<open>('k, 'v) rbt\<close> here, the order of
  \<^verbatim>\<open>K\<close> being the linear order of \<^typ>\<open>'k\<close>. The iterators from \<^verbatim>\<open>begin()\<close> to
  \<^verbatim>\<open>end()\<close> visit the entries in order, which is the list \<^term>\<open>RBT.entries m\<close>; the
  loops below walk that list, the first argument being what the iterator has still to
  visit. \<^verbatim>\<open>size()\<close> is the distance from \<^verbatim>\<open>begin()\<close> to \<^verbatim>\<open>end()\<close>.
\<close>

fun keys_loop :: "('k \<times> 'v) list \<Rightarrow> 'k list \<Rightarrow> 'k list" where
  "keys_loop [] result = result"
| "keys_loop (e # it) result = keys_loop it (result @ [fst e])"

definition keys :: "('k::linorder, 'v) rbt \<Rightarrow> 'k list" where
  "keys m = keys_loop (RBT.entries m) []"

fun values_loop :: "('k \<times> 'v) list \<Rightarrow> 'v list \<Rightarrow> 'v list" where
  "values_loop [] result = result"
| "values_loop (e # it) result = values_loop it (result @ [snd e])"

definition "values" :: "('k::linorder, 'v) rbt \<Rightarrow> 'v list" where
  "values m = values_loop (RBT.entries m) []"

definition map_size :: "('k::linorder, 'v) rbt \<Rightarrow> nat" where
  "map_size m = length (RBT.entries m)"

section \<open>OneStringHelper::split\<close>

text \<open>
  The source (\<^verbatim>\<open>src/langs/StdLibs/one.hpp\<close>, lines 31-47):
  \<^verbatim>\<open>
  static vector<string> split(const string& str, const string& delim)
  {
      vector<string> tokens;
      size_t prev = 0, pos = 0;
      do
      {
          pos = str.find(delim, prev);
          if (pos == string::npos) pos = str.length();
          string token = str.substr(prev, pos - prev);
          tokens.push_back(token);
          prev = pos + delim.length();
      }
      while (pos < str.length() && prev < str.length());
      return tokens;
  }
  \<close>
  A \<^verbatim>\<open>std::string\<close> is a \<^typ>\<open>string\<close> (a list of bytes), a \<^verbatim>\<open>size_t\<close> position a
  \<^typ>\<open>nat\<close>. Two places could in principle leave the range of \<^verbatim>\<open>size_t\<close>:
  \<^item> \<^verbatim>\<open>pos - prev\<close>: when \<^verbatim>\<open>prev <= str.length()\<close> the position found is at least
    \<^verbatim>\<open>prev\<close>, so nothing wraps; when \<^verbatim>\<open>prev > str.length()\<close> the call of
    \<^verbatim>\<open>substr\<close> throws before it looks at the count. Truncating subtraction on
    \<^typ>\<open>nat\<close> therefore gives the same result as the wrapping one.
  \<^item> \<^verbatim>\<open>pos + delim.length()\<close>: \<^verbatim>\<open>pos\<close> is at most \<^verbatim>\<open>str.length()\<close>, and the two
    strings are objects in memory, each shorter than \<^verbatim>\<open>max_size()\<close>, so the sum is
    below \<^verbatim>\<open>2^64\<close>.
\<close>

subsection \<open>The library calls\<close>

text \<open>
  \<^verbatim>\<open>std::string::substr(pos, n)\<close> throws \<^verbatim>\<open>std::out_of_range\<close> when \<^verbatim>\<open>pos > size()\<close> and
  otherwise returns the characters \<^verbatim>\<open>[pos, min(pos + n, size()))\<close>.
\<close>

datatype error = OutOfRange

definition substr :: "string \<Rightarrow> nat \<Rightarrow> nat \<Rightarrow> error + string" where
  "substr s pos n = (if length s < pos then Inl OutOfRange else Inr (take n (drop pos s)))"

text \<open>
  \<^verbatim>\<open>std::string::find(d, pos)\<close> returns the lowest position \<^verbatim>\<open>p >= pos\<close> with
  \<^verbatim>\<open>p + d.size() <= size()\<close> at which \<^verbatim>\<open>d\<close> occurs, and \<^verbatim>\<open>npos\<close> when there is none (in
  particular when \<^verbatim>\<open>pos > size()\<close>). \<^verbatim>\<open>npos\<close> is \<^const>\<open>None\<close> here. \<open>find_scan xs d i\<close>
  walks the part \<open>xs\<close> of the string that starts at position \<open>i\<close>; an empty \<open>d\<close> is found
  at once, also at the very end of the string.
\<close>

fun find_scan :: "string \<Rightarrow> string \<Rightarrow> nat \<Rightarrow> nat option" where
  "find_scan [] d i = (if d = [] then Some i else None)"
| "find_scan (c # cs) d i = (if prefix d (c # cs) then Some i else find_scan cs d (Suc i))"

definition find_str :: "string \<Rightarrow> string \<Rightarrow> nat \<Rightarrow> nat option" where
  "find_str s d pos = (if length s < pos then None else find_scan (drop pos s) d pos)"

subsection \<open>The loop\<close>

text \<open>
  One call of \<open>split_loop\<close> is one run of the body of the \<^verbatim>\<open>do ... while\<close> followed by
  its test. The loop may run forever, so the function is a partial one: \<^const>\<open>None\<close> is
  "does not return", \<open>Some (Inl e)\<close> an exception that leaves the function, and
  \<open>Some (Inr tokens)\<close> the vector returned.
\<close>

partial_function (option) split_loop ::
  "string \<Rightarrow> string \<Rightarrow> nat \<Rightarrow> string list \<Rightarrow> (error + string list) option" where
  "split_loop str delim prev tokens =
     (let pos = (case find_str str delim prev of None \<Rightarrow> length str | Some p \<Rightarrow> p) in
      case substr str prev (pos - prev) of
        Inl e \<Rightarrow> Some (Inl e)
      | Inr token \<Rightarrow>
          (let tokens' = tokens @ [token];
               prev' = pos + length delim
           in if pos < length str \<and> prev' < length str
              then split_loop str delim prev' tokens'
              else Some (Inr tokens')))"

declare split_loop.simps [code]

definition split :: "string \<Rightarrow> string \<Rightarrow> (error + string list) option" where
  "split str delim = split_loop str delim 0 []"

text \<open>
  For stating what \<open>split\<close> computes: \<open>join_delim d ts\<close> writes every token of \<open>ts\<close>
  followed by the delimiter, and \<open>closed_by d t\<close> says that in \<open>t @ d\<close> the delimiter
  occurs at the end only, so that a search from the start of \<open>t\<close> stops at the end of
  \<open>t\<close>. For a one-character delimiter this is "the character is not in \<open>t\<close>".
\<close>

definition join_delim :: "string \<Rightarrow> string list \<Rightarrow> string" where
  "join_delim d ts = concat (map (\<lambda>t. t @ d) ts)"

definition closed_by :: "string \<Rightarrow> string \<Rightarrow> bool" where
  "closed_by d t \<longleftrightarrow> \<not> sublist d (butlast (t @ d))"

section \<open>OneFile::readText\<close>

text \<open>
  The source (\<^verbatim>\<open>src/langs/StdLibs/one.hpp\<close>, lines 52-57):
  \<^verbatim>\<open>
  static string readText(const string& path)
  {
      ifstream file(path);
      string content((istreambuf_iterator<char>(file)), istreambuf_iterator<char>());
      return content;
  }
  \<close>
  The file system is the list of the paths that can be opened for reading, each with the
  bytes of its file; a path that is not in the list cannot be opened (no such file, no
  permission, not a valid path).

  The constructor of \<^verbatim>\<open>std::ifstream\<close> does not throw when the file cannot be opened:
  it sets \<^verbatim>\<open>failbit\<close> and leaves the stream buffer closed. A closed buffer answers
  every read with end-of-file. An open one delivers the bytes of the file one at a time,
  as they are: this is the behaviour of a stream on a POSIX system, where opening without
  \<^verbatim>\<open>ios::binary\<close> changes nothing, and with the conversion facet of \<^verbatim>\<open>char\<close> streams,
  which converts nothing. A read error in the middle of a file is not part of the model.
\<close>

type_synonym filesystem = "(string \<times> string) list"

record ifstream =
  is_open :: bool
  failbit :: bool
  pending :: string

definition ifstream_open :: "filesystem \<Rightarrow> string \<Rightarrow> ifstream" where
  "ifstream_open fs path =
     (case map_of fs path of
        None \<Rightarrow> \<lparr>is_open = False, failbit = True, pending = []\<rparr>
      | Some bytes \<Rightarrow> \<lparr>is_open = True, failbit = False, pending = bytes\<rparr>)"

text \<open>
  \<^verbatim>\<open>istreambuf_iterator\<close> reads through the stream buffer: \<^verbatim>\<open>*it\<close> is \<^verbatim>\<open>sgetc()\<close>,
  \<^verbatim>\<open>++it\<close> is \<^verbatim>\<open>sbumpc()\<close>, and an iterator equals the end iterator when
  \<^verbatim>\<open>sgetc()\<close> answers end-of-file (\<^const>\<open>None\<close>).
\<close>

definition sgetc :: "ifstream \<Rightarrow> char option" where
  "sgetc file =
     (if is_open file then (case pending file of [] \<Rightarrow> None | c # _ \<Rightarrow> Some c) else None)"

definition sbumpc :: "ifstream \<Rightarrow> ifstream" where
  "sbumpc file = file\<lparr>pending := tl (pending file)\<rparr>"

text \<open>
  The constructor \<^verbatim>\<open>string(first, last)\<close> on input iterators appends \<^verbatim>\<open>*first\<close> and
  advances until \<^verbatim>\<open>first == last\<close>.
\<close>

function string_from :: "ifstream \<Rightarrow> string \<Rightarrow> string" where
  "string_from file content =
     (case sgetc file of
        None \<Rightarrow> content
      | Some c \<Rightarrow> string_from (sbumpc file) (content @ [c]))"
  by pat_completeness auto
termination
  by (relation "measure (\<lambda>(file, content). length (pending file))")
     (auto simp: sgetc_def sbumpc_def split: if_splits list.splits)

text \<open>
  \<open>readText\<close> returns a \<^verbatim>\<open>string\<close> and has no other way out: it tests neither
  \<^verbatim>\<open>is_open()\<close> nor the state of the stream, and the stream's exception mask is the
  default, empty one.
\<close>

definition readText :: "filesystem \<Rightarrow> string \<Rightarrow> string" where
  "readText fs path =
     (let file = ifstream_open fs path;
          content = string_from file []
      in content)"

section \<open>Properties of the search\<close>

lemma find_scan_None_iff: "find_scan xs d i = None \<longleftrightarrow> \<not> sublist d xs"
  by (induction xs arbitrary: i) (auto simp: sublist_Cons_right)

lemma find_scan_Some_bounds:
  "find_scan xs d i = Some p \<Longrightarrow> i \<le> p \<and> p + length d \<le> i + length xs"
proof (induction xs arbitrary: i)
  case Nil
  then show ?case by (auto split: if_splits)
next
  case (Cons c cs)
  show ?case
  proof (cases "prefix d (c # cs)")
    case True
    with Cons.prems show ?thesis by (auto dest: prefix_length_le)
  next
    case False
    with Cons.prems have "find_scan cs d (Suc i) = Some p" by simp
    from Cons.IH[OF this] show ?thesis by simp
  qed
qed

lemma find_scan_Some_token:
  "find_scan xs d i = Some p \<Longrightarrow> d \<noteq> [] \<Longrightarrow> \<not> sublist d (take (p - i) xs)"
proof (induction xs arbitrary: i)
  case Nil
  then show ?case by simp
next
  case (Cons c cs)
  show ?case
  proof (cases "prefix d (c # cs)")
    case True
    with Cons.prems show ?thesis by simp
  next
    case False
    with Cons.prems have f: "find_scan cs d (Suc i) = Some p" by simp
    from find_scan_Some_bounds[OF f] have "Suc i \<le> p" by simp
    then obtain k where k: "p - i = Suc k" "p - Suc i = k"
      by (metis Suc_diff_Suc Suc_le_lessD)
    from Cons.IH[OF f Cons.prems(2)] k have ih: "\<not> sublist d (take k cs)" by simp
    have "\<not> prefix d (c # take k cs)"
      using False by (metis append_take_drop_id prefix_prefix Cons_eq_appendI)
    with ih k show ?thesis by (simp add: sublist_Cons_right)
  qed
qed

lemma find_scan_first:
  "d \<noteq> [] \<Longrightarrow> \<not> sublist d (butlast (t @ d)) \<Longrightarrow>
     find_scan (t @ d @ rest) d i = Some (i + length t)"
proof (induction t arbitrary: i)
  case Nil
  then obtain c cs where "d @ rest = c # cs" by (cases d) auto
  then show ?case
    by (metis find_scan.simps(2) prefixI append_Nil add.right_neutral list.size(3))
next
  case (Cons c t)
  have bl: "butlast ((c # t) @ d) = c # butlast (t @ d)"
    using Cons.prems(1) by simp
  have np: "\<not> prefix d (c # t @ d @ rest)"
  proof
    assume p: "prefix d (c # t @ d @ rest)"
    have "c # t @ d @ rest = butlast ((c # t) @ d) @ (last d # rest)"
      using Cons.prems(1)
      by (metis append.assoc append_Cons append_Nil append_butlast_last_id butlast_append)
    moreover have "length d \<le> length (butlast ((c # t) @ d))" by simp
    ultimately have "prefix d (butlast ((c # t) @ d))"
      using p by (metis prefix_length_prefix prefixI)
    with Cons.prems(2) show False by auto
  qed
  have "\<not> sublist d (butlast (t @ d))"
    using Cons.prems(2) bl by (simp add: sublist_Cons_right)
  from Cons.IH[OF Cons.prems(1) this, of "Suc i"] np show ?case by simp
qed

section \<open>Properties of the loop of split\<close>

lemma split_loop_found:
  assumes "find_str str d prev = Some p" and "prev \<le> length str"
  shows "split_loop str d prev toks =
           (if p + length d < length str
            then split_loop str d (p + length d) (toks @ [take (p - prev) (drop prev str)])
            else Some (Inr (toks @ [take (p - prev) (drop prev str)])))"
  using assms by (subst split_loop.simps) (simp add: substr_def Let_def)

lemma split_loop_not_found:
  assumes "find_str str d prev = None" and "prev \<le> length str"
  shows "split_loop str d prev toks = Some (Inr (toks @ [drop prev str]))"
  using assms by (subst split_loop.simps) (simp add: substr_def Let_def)

lemma split_loop_out_of_range:
  assumes "length str < prev"
  shows "split_loop str d prev toks = Some (Inl OutOfRange)"
  using assms by (subst split_loop.simps) (simp add: substr_def Let_def)

lemma split_loop_total:
  assumes "d \<noteq> []"
  shows "prev \<le> length str \<Longrightarrow>
     \<exists>ts. split_loop str d prev toks = Some (Inr (toks @ ts)) \<and> ts \<noteq> [] \<and>
          (\<forall>t \<in> set ts. \<not> sublist d t)"
proof (induction "length str - prev" arbitrary: prev toks rule: less_induct)
  case less
  show ?case
  proof (cases "find_str str d prev")
    case None
    with less.prems have "\<not> sublist d (drop prev str)"
      by (simp add: find_str_def find_scan_None_iff)
    with split_loop_not_found[OF None less.prems] show ?thesis by simp
  next
    case (Some p)
    with less.prems have fs: "find_scan (drop prev str) d prev = Some p"
      by (simp add: find_str_def)
    from find_scan_Some_bounds[OF fs] less.prems
    have b: "prev \<le> p" "p + length d \<le> length str" by auto
    let ?tok = "take (p - prev) (drop prev str)"
    have tok: "\<not> sublist d ?tok" using find_scan_Some_token[OF fs assms] .
    show ?thesis
    proof (cases "p + length d < length str")
      case True
      have "length str - (p + length d) < length str - prev"
        using b assms True by (cases d) auto
      from less.hyps[OF this, of "toks @ [?tok]"] True
      obtain ts where ts: "split_loop str d (p + length d) (toks @ [?tok])
          = Some (Inr ((toks @ [?tok]) @ ts))" "\<forall>t \<in> set ts. \<not> sublist d t"
        by auto
      have "split_loop str d prev toks = Some (Inr (toks @ (?tok # ts)))"
        using split_loop_found[OF Some less.prems, of toks] True ts(1) by simp
      with tok ts(2) show ?thesis by (intro exI[of _ "?tok # ts"]) simp
    next
      case False
      with split_loop_found[OF Some less.prems, of toks] tok show ?thesis by simp
    qed
  qed
qed

lemma split_loop_empty_delim:
  assumes "prev < length str"
  shows "split_loop str [] prev toks = None"
proof (cases "split_loop str [] prev toks")
  case None
  then show ?thesis .
next
  case (Some y)
  have "d = [] \<longrightarrow> prev < length str \<longrightarrow> False"
    if run: "split_loop str d prev toks = Some y" for str d prev toks y
  proof (rule split_loop.raw_induct[where P = "\<lambda>str d prev toks y.
      d = [] \<longrightarrow> prev < length str \<longrightarrow> False", OF _ run])
    fix f :: "string \<Rightarrow> string \<Rightarrow> nat \<Rightarrow> string list \<Rightarrow> (error + string list) option"
    fix str d prev toks y
    assume IH: "\<And>str d prev toks y. f str d prev toks = Some y \<Longrightarrow>
        d = [] \<longrightarrow> prev < length str \<longrightarrow> False"
    assume body: "(let pos = (case find_str str d prev of None \<Rightarrow> length str | Some p \<Rightarrow> p) in
      case substr str prev (pos - prev) of
        Inl e \<Rightarrow> Some (Inl e)
      | Inr token \<Rightarrow>
          (let tokens' = toks @ [token];
               prev' = pos + length d
           in if pos < length str \<and> prev' < length str
              then f str d prev' tokens'
              else Some (Inr tokens'))) = Some y"
    show "d = [] \<longrightarrow> prev < length str \<longrightarrow> False"
    proof (intro impI)
      assume d: "d = []" and p: "prev < length str"
      then obtain c cs where "drop prev str = c # cs" by (cases "drop prev str") auto
      with d p have "find_str str d prev = Some prev" by (simp add: find_str_def)
      with body d p have "f str d prev (toks @ [[]]) = Some y"
        by (simp add: substr_def Let_def)
      from IH[OF this] d p show False by simp
    qed
  qed
  from this[OF Some] assms show ?thesis by simp
qed

lemma split_loop_result:
  assumes "split_loop str d prev toks = Some r" and "prev \<le> length str"
  shows "\<exists>ts. r = Inr ts \<and> length toks < length ts"
proof -
  have "prev \<le> length str \<longrightarrow> (\<exists>ts. r = Inr ts \<and> length toks < length ts)"
  proof (rule split_loop.raw_induct[where P = "\<lambda>str d prev toks r.
      prev \<le> length str \<longrightarrow> (\<exists>ts. r = Inr ts \<and> length toks < length ts)", OF _ assms(1)])
    fix f :: "string \<Rightarrow> string \<Rightarrow> nat \<Rightarrow> string list \<Rightarrow> (error + string list) option"
    fix str d prev toks r
    assume IH: "\<And>str d prev toks r. f str d prev toks = Some r \<Longrightarrow>
        prev \<le> length str \<longrightarrow> (\<exists>ts. r = Inr ts \<and> length toks < length ts)"
    assume body: "(let pos = (case find_str str d prev of None \<Rightarrow> length str | Some p \<Rightarrow> p) in
      case substr str prev (pos - prev) of
        Inl e \<Rightarrow> Some (Inl e)
      | Inr token \<Rightarrow>
          (let tokens' = toks @ [token];
               prev' = pos + length d
           in if pos < length str \<and> prev' < length str
              then f str d prev' tokens'
              else Some (Inr tokens'))) = Some r"
    show "prev \<le> length str \<longrightarrow> (\<exists>ts. r = Inr ts \<and> length toks < length ts)"
    proof (intro impI)
      assume p: "prev \<le> length str"
      define pos where "pos = (case find_str str d prev of None \<Rightarrow> length str | Some p \<Rightarrow> p)"
      define tok where "tok = take (pos - prev) (drop prev str)"
      show "\<exists>ts. r = Inr ts \<and> length toks < length ts"
      proof (cases "pos < length str \<and> pos + length d < length str")
        case True
        with body p have "f str d (pos + length d) (toks @ [tok]) = Some r"
          by (simp add: substr_def Let_def pos_def tok_def)
        from IH[OF this] True show ?thesis by auto
      next
        case False
        with body p have "r = Inr (toks @ [tok])"
          by (auto simp add: substr_def Let_def pos_def tok_def)
        then show ?thesis by simp
      qed
    qed
  qed
  with assms(2) show ?thesis by simp
qed

lemma split_loop_join:
  assumes d: "d \<noteq> []" and u: "\<not> sublist d u"
  shows "\<forall>t \<in> set ts. closed_by d t \<Longrightarrow>
    split_loop (pre @ join_delim d ts @ u) d (length pre) toks =
      Some (Inr (toks @ ts @ (if u = [] \<and> ts \<noteq> [] then [] else [u])))"
proof (induction ts arbitrary: pre toks)
  case Nil
  have "find_str (pre @ u) d (length pre) = None"
    using u by (simp add: find_str_def find_scan_None_iff)
  from split_loop_not_found[OF this] show ?case by (simp add: join_delim_def)
next
  case (Cons t ts)
  let ?str = "pre @ join_delim d (t # ts) @ u"
  have str: "?str = (pre @ t @ d) @ join_delim d ts @ u"
    by (simp add: join_delim_def)
  have cl: "\<not> sublist d (butlast (t @ d))" using Cons.prems by (simp add: closed_by_def)
  have "find_scan (t @ d @ join_delim d ts @ u) d (length pre) = Some (length pre + length t)"
    by (rule find_scan_first[OF d cl])
  then have f: "find_str ?str d (length pre) = Some (length pre + length t)"
    by (simp add: find_str_def join_delim_def)
  have tok: "take (length pre + length t - length pre) (drop (length pre) ?str) = t"
    by (simp add: join_delim_def)
  have step: "split_loop ?str d (length pre) toks =
           (if length pre + length t + length d < length ?str
            then split_loop ?str d (length pre + length t + length d) (toks @ [t])
            else Some (Inr (toks @ [t])))"
    using split_loop_found[OF f, of toks] tok by simp
  show ?case
  proof (cases "join_delim d ts @ u = []")
    case True
    then have e: "ts = []" "u = []" using d by (auto simp: join_delim_def)
    then have "\<not> length pre + length t + length d < length ?str"
      by (simp add: join_delim_def)
    with step e show ?thesis by simp
  next
    case False
    then have lt: "length pre + length t + length d < length ?str"
      unfolding str by (simp del: append_assoc)
    from False have c: "(if u = [] \<and> ts \<noteq> [] then [] else [u]) = (if u = [] then [] else [u])"
      by (auto simp: join_delim_def)
    have "split_loop ((pre @ t @ d) @ join_delim d ts @ u) d (length (pre @ t @ d)) (toks @ [t])
        = Some (Inr ((toks @ [t]) @ ts @ (if u = [] \<and> ts \<noteq> [] then [] else [u])))"
      using Cons.prems by (intro Cons.IH) simp
    with step lt c show ?thesis unfolding str by (simp add: add.assoc)
  qed
qed

section \<open>Properties of the loops over a map and over a stream\<close>

lemma keys_loop_eq: "keys_loop es acc = acc @ map fst es"
  by (induction es arbitrary: acc) auto

lemma values_loop_eq: "values_loop es acc = acc @ map snd es"
  by (induction es arbitrary: acc) auto

lemma map_size_card: "map_size m = card (dom (RBT.lookup m))"
proof -
  have "dom (RBT.lookup m) = fst ` set (RBT.entries m)"
    by (metis RBT.map_of_entries dom_map_of_conv_image_fst)
  moreover have "card (set (map fst (RBT.entries m))) = length (map fst (RBT.entries m))"
    by (rule distinct_card) (rule RBT.distinct_entries)
  ultimately show ?thesis by (simp add: map_size_def)
qed

declare string_from.simps [simp del]

lemma string_from_closed: "\<not> is_open f \<Longrightarrow> string_from f content = content"
  by (subst string_from.simps) (simp add: sgetc_def)

lemma string_from_open: "is_open f \<Longrightarrow> string_from f content = content @ pending f"
proof (induction "pending f" arbitrary: f content)
  case Nil
  then show ?case by (subst string_from.simps) (simp add: sgetc_def)
next
  case (Cons c cs)
  from Cons.hyps(2) have p: "pending f = c # cs" by simp
  have "string_from (sbumpc f) (content @ [c]) = (content @ [c]) @ pending (sbumpc f)"
    using Cons.prems p by (intro Cons.hyps(1)) (simp_all add: sbumpc_def)
  with Cons.prems p show ?case
    by (subst string_from.simps) (simp add: sgetc_def sbumpc_def)
qed

section \<open>The claims\<close>

subsection \<open>C1: a delimiter at the very end of the string\<close>

text \<open>
  C1, as amended. Let \<open>delim\<close> be non-empty and let \<open>str\<close> end with a delimiter that the
  scan matches: \<open>str\<close> is \<open>t1 delim t2 delim ... tk delim\<close> with \<open>k \<ge> 1\<close>, where in each
  \<open>ti delim\<close> the delimiter occurs at the end only. Then \<open>split(str, delim)\<close> returns exactly
  \<open>[t1, ..., tk]\<close>: the trailing delimiter closes the last token and no empty string is
  emitted after it. In particular \<open>split("a,", ",")\<close> is the one-element sequence \<open>["a"]\<close>.
\<close>

theorem split_trailing_delimiter:
  assumes "d \<noteq> []" and "ts \<noteq> []" and "\<forall>t \<in> set ts. closed_by d t"
  shows "split (join_delim d ts) d = Some (Inr ts)"
proof -
  have "\<not> sublist d []" using assms(1) by simp
  from split_loop_join[OF assms(1) this assms(3), of "[]" "[]"] assms(2)
  show ?thesis by (simp add: split_def)
qed

theorem split_trailing_delimiter_witness:
  "'','' \<noteq> [] \<and> [''a''] \<noteq> [] \<and> closed_by '','' ''a'' \<and>
   join_delim '','' [''a''] = ''a,'' \<and> split ''a,'' '','' = Some (Inr [''a''])"
proof -
  have 1: "'','' \<noteq> []" by simp
  have 2: "[''a''] \<noteq> []" by simp
  have c: "closed_by '','' ''a''"
    by (simp add: closed_by_def sublist_Cons_right)
  then have 3: "\<forall>t \<in> set [''a'']. closed_by '','' t" by simp
  have 4: "join_delim '','' [''a''] = ''a,''" by (simp add: join_delim_def)
  have "split (join_delim '','' [''a'']) '','' = Some (Inr [''a''])"
    by (rule split_trailing_delimiter[OF 1 2 3])
  then have 5: "split ''a,'' '','' = Some (Inr [''a''])" unfolding 4 .
  from 1 2 c 4 5 show ?thesis by blast
qed

text \<open>
  C1 as it is written asks for \<open>["a", ""]\<close>. On \<open>"a,"\<close> the first run of the body finds
  the comma at 1, pushes \<open>"a"\<close> and sets \<open>prev\<close> to 2, the length of the string; the test
  \<^verbatim>\<open>prev < str.length()\<close> then ends the loop.
\<close>

theorem split_trailing_counterexample:
  "split ''a,'' '','' = Some (Inr [''a'']) \<and> split ''a,'' '','' \<noteq> Some (Inr [''a'', ''''])"
  by (simp add: split_def split_loop.simps find_str_def substr_def)

subsection \<open>C2: a file that cannot be opened\<close>

text \<open>
  C2, as amended. For every path whose file cannot be opened, \<open>readText(path)\<close> signals
  nothing and returns the empty string, which is also what it returns for a file that
  exists and is empty.
\<close>

theorem readText_unopenable:
  assumes "map_of fs path = None"
  shows "readText fs path = [] \<and> readText fs path = readText ((path, []) # fs) path"
proof -
  have "readText fs path = []"
    using assms by (simp add: readText_def ifstream_open_def string_from_closed)
  moreover have "readText ((path, []) # fs) path = []"
    by (simp add: readText_def ifstream_open_def string_from_open)
  ultimately show ?thesis by simp
qed

theorem readText_unopenable_witness:
  "map_of [] ''missing.txt'' = (None :: string option) \<and>
   readText [] ''missing.txt'' = [] \<and>
   readText [] ''missing.txt'' = readText [(''missing.txt'', [])] ''missing.txt''"
proof -
  have 1: "map_of [] ''missing.txt'' = (None :: string option)" by simp
  from 1 readText_unopenable[OF 1] show ?thesis by blast
qed

text \<open>
  C2 as it is written asks that the result for a path that cannot be opened differ from
  the result for an empty file. With no file at all and with an empty file at the same
  path the caller receives the same empty string.
\<close>

theorem readText_missing_counterexample:
  "map_of [] ''missing.txt'' = (None :: string option) \<and>
   map_of [(''missing.txt'', [])] ''missing.txt'' = Some [] \<and>
   readText [] ''missing.txt'' = readText [(''missing.txt'', [])] ''missing.txt''"
  by (simp add: readText_def ifstream_open_def sgetc_def string_from.simps)

subsection \<open>C3: the loop of split returns\<close>

text \<open>
  C3, as amended. For every string \<open>str\<close> and every non-empty delimiter \<open>delim\<close>, and for
  the empty \<open>str\<close> with any delimiter, the loop of \<open>split(str, delim)\<close> terminates, throws
  nothing and returns a sequence.
\<close>

theorem split_returns:
  assumes "delim \<noteq> [] \<or> str = []"
  shows "\<exists>ts. split str delim = Some (Inr ts)"
proof (cases "delim = []")
  case True
  with assms have "str = []" by simp
  with True have "split str delim = Some (Inr [[]])"
    unfolding split_def by (subst split_loop.simps) (simp add: find_str_def substr_def)
  then show ?thesis by blast
next
  case False
  from split_loop_total[OF False, of 0 str "[]"] show ?thesis
    by (auto simp: split_def)
qed

theorem split_returns_witness:
  "'','' \<noteq> [] \<and> (\<exists>ts. split ''a,b'' '','' = Some (Inr ts))"
proof -
  have 1: "'','' \<noteq> []" by simp
  then have 2: "'','' \<noteq> [] \<or> ''a,b'' = []" by (rule disjI1)
  from 1 split_returns[OF 2] show ?thesis by blast
qed

text \<open>
  C3 as it is written covers a delimiter of length 0. On \<open>"a"\<close> with the empty delimiter
  every run of the body finds the delimiter at \<open>prev = 0\<close>, pushes an empty token and
  leaves \<open>prev\<close> at 0, so the test holds again: the loop does not return. (Memory has
  no bound in the model; on a machine the vector grows until an allocation fails.)
\<close>

theorem split_empty_delim_counterexample: "split ''a'' [] = None"
  unfolding split_def by (rule split_loop_empty_delim) simp

subsection \<open>C4: keys and values run in step\<close>

text \<open>
  C4. For every ordered mapping \<open>m\<close> of size \<open>n\<close>, \<open>keys(m)\<close> and \<open>values(m)\<close> both have
  length \<open>n\<close>, and for every index \<open>i < n\<close> the pair \<open>(keys(m)[i], values(m)[i])\<close> is the
  \<open>i\<close>-th entry of \<open>m\<close> in iteration order; for \<open>n = 0\<close> both results are empty.
\<close>

theorem keys_values_aligned:
  "length (keys m) = map_size m \<and> length (values m) = map_size m \<and>
   (\<forall>i < map_size m. (keys m ! i, values m ! i) = RBT.entries m ! i) \<and>
   (map_size m = 0 \<longrightarrow> keys m = [] \<and> values m = [])"
  by (simp add: keys_def values_def map_size_def keys_loop_eq values_loop_eq)

theorem keys_values_aligned_witness:
  "(1::nat) < map_size (RBT.insert (2::int) ''b'' (RBT.insert 1 ''a'' RBT.empty)) \<and>
   RBT.entries (RBT.insert (2::int) ''b'' (RBT.insert 1 ''a'' RBT.empty)) ! 1 = (2, ''b'') \<and>
   (keys (RBT.insert (2::int) ''b'' (RBT.insert 1 ''a'' RBT.empty)) ! 1,
    values (RBT.insert (2::int) ''b'' (RBT.insert 1 ''a'' RBT.empty)) ! 1) = (2, ''b'')"
proof -
  let ?m = "RBT.insert (2::int) ''b'' (RBT.insert 1 ''a'' RBT.empty)"
  have e: "RBT.entries ?m = [(1, ''a''), (2, ''b'')]"
    by (simp add: entries.rep_eq insert.rep_eq empty.rep_eq rbt_insert_def
        rbt_insert_with_key_def)
  have 1: "(1::nat) < map_size ?m" unfolding map_size_def e by simp
  have 2: "RBT.entries ?m ! 1 = (2, ''b'')" unfolding e by simp
  from keys_values_aligned[of ?m] 1
  have "(keys ?m ! 1, values ?m ! 1) = RBT.entries ?m ! 1" by blast
  with 1 2 show ?thesis by simp
qed

subsection \<open>C5: delimiters that follow one another\<close>

text \<open>
  C5. Let \<open>delim\<close> be non-empty and let \<open>str\<close> contain two occurrences of it with nothing
  between them: \<open>str\<close> is \<open>t1 delim ... tk delim\<close> (\<open>k \<ge> 1\<close>), then \<open>delim\<close> again, then
  \<open>u1 delim ... ul delim\<close> and a last piece \<open>u\<close> without the delimiter. Then
  \<open>split(str, delim)\<close> has an empty string between \<open>tk\<close> and what follows; nothing is
  collapsed (some of the \<open>ti\<close> and \<open>ui\<close> may be empty themselves, for longer runs of
  delimiters). In particular \<open>split("a,,b", ",")\<close> is \<open>["a", "", "b"]\<close>.
\<close>

theorem split_consecutive_delimiters:
  assumes "d \<noteq> []" and "ts \<noteq> []" and "\<forall>t \<in> set (ts @ us). closed_by d t"
    and "\<not> sublist d u"
  shows "split (join_delim d ts @ d @ join_delim d us @ u) d =
           Some (Inr (ts @ [] # us @ (if u = [] then [] else [u])))"
proof -
  have "length (butlast d) < length d" using assms(1) by simp
  then have "\<not> sublist d (butlast d)" by (metis sublist_length_le not_le)
  then have e: "closed_by d []" by (simp add: closed_by_def)
  have j: "join_delim d ts @ d @ join_delim d us @ u = join_delim d (ts @ [] # us) @ u"
    by (simp add: join_delim_def)
  have "\<forall>t \<in> set (ts @ [] # us). closed_by d t" using assms(3) e by auto
  from split_loop_join[OF assms(1) assms(4) this, of "[]" "[]"]
  show ?thesis unfolding j by (simp add: split_def)
qed

theorem split_consecutive_delimiters_witness:
  "'','' \<noteq> [] \<and> [''a''] \<noteq> [] \<and> closed_by '','' ''a'' \<and> \<not> sublist '','' ''b'' \<and>
   join_delim '','' [''a''] @ '','' @ join_delim '','' [] @ ''b'' = ''a,,b'' \<and>
   split ''a,,b'' '','' = Some (Inr [''a'', '''', ''b''])"
proof -
  have 1: "'','' \<noteq> []" by simp
  have 2: "[''a''] \<noteq> []" by simp
  have c: "closed_by '','' ''a''"
    by (simp add: closed_by_def sublist_Cons_right)
  then have 3: "\<forall>t \<in> set ([''a''] @ []). closed_by '','' t" by simp
  have 4: "\<not> sublist '','' ''b''" by (simp add: sublist_Cons_right)
  have 5: "join_delim '','' [''a''] @ '','' @ join_delim '','' [] @ ''b'' = ''a,,b''"
    by (simp add: join_delim_def)
  have "split (join_delim '','' [''a''] @ '','' @ join_delim '','' [] @ ''b'') '','' =
      Some (Inr ([''a''] @ [] # [] @ (if ''b'' = [] then [] else [''b''])))"
    by (rule split_consecutive_delimiters[OF 1 2 3 4])
  then have 6: "split ''a,,b'' '','' = Some (Inr [''a'', '''', ''b''])"
    unfolding 5 by simp
  from 1 2 c 4 5 6 show ?thesis by blast
qed

subsection \<open>C6: a delimiter that does not occur\<close>

text \<open>
  C6. For every string \<open>str\<close> and non-empty delimiter \<open>delim\<close> that does not occur in
  \<open>str\<close>, \<open>split(str, delim)\<close> is the one-element sequence \<open>[str]\<close>; for the empty \<open>str\<close>
  it is the one-element sequence holding the empty string.
\<close>

theorem split_no_occurrence:
  assumes "delim \<noteq> []"
  shows "(\<not> sublist delim str \<longrightarrow> split str delim = Some (Inr [str])) \<and>
         split [] delim = Some (Inr [[]])"
proof -
  have "split s delim = Some (Inr [s])" if "\<not> sublist delim s" for s
  proof -
    from that have "find_str s delim 0 = None"
      by (simp add: find_str_def find_scan_None_iff)
    from split_loop_not_found[OF this, of "[]"] show ?thesis by (simp add: split_def)
  qed
  moreover have "\<not> sublist delim []" using assms by simp
  ultimately show ?thesis by blast
qed

theorem split_no_occurrence_witness:
  "'','' \<noteq> [] \<and> \<not> sublist '','' ''abc'' \<and> split ''abc'' '','' = Some (Inr [''abc'']) \<and>
   split '''' '','' = Some (Inr [''''])"
proof -
  have 1: "'','' \<noteq> []" by simp
  have 2: "\<not> sublist '','' ''abc''" by (simp add: sublist_Cons_right)
  from split_no_occurrence[OF 1, of "''abc''"] 1 2 show ?thesis by blast
qed

subsection \<open>C7: a readable file\<close>

text \<open>
  C7. For every path to a readable file, \<open>readText(path)\<close> returns the whole contents of
  the file as one string, unchanged; a file holding \<open>hello\<close>, a newline and \<open>world\<close>
  comes back as exactly that.
\<close>

theorem readText_contents:
  assumes "map_of fs path = Some bytes"
  shows "readText fs path = bytes"
  using assms by (simp add: readText_def ifstream_open_def string_from_open)

theorem readText_contents_witness:
  "map_of [(''f.txt'', ''hello\<newline>world'')] ''f.txt'' = Some ''hello\<newline>world'' \<and>
   readText [(''f.txt'', ''hello\<newline>world'')] ''f.txt'' = ''hello\<newline>world''"
proof -
  have 1: "map_of [(''f.txt'', ''hello\<newline>world'')] ''f.txt'' = Some ''hello\<newline>world''"
    by simp
  from 1 readText_contents[OF 1] show ?thesis by blast
qed

subsection \<open>C8: the result of split is never empty\<close>

text \<open>
  C8. For every string \<open>str\<close> and every delimiter \<open>delim\<close> for which \<open>split\<close> terminates,
  \<open>split(str, delim)\<close> returns a sequence with at least one element.
\<close>

theorem split_result_nonempty:
  assumes "split str delim = Some r"
  shows "\<exists>ts. r = Inr ts \<and> ts \<noteq> []"
proof -
  from assms have "split_loop str delim 0 [] = Some r" by (simp add: split_def)
  from split_loop_result[OF this] show ?thesis by auto
qed

theorem split_result_nonempty_witness:
  "split '''' '''' = Some (Inr ['''']) \<and>
   (\<exists>ts. Inr [''''] = (Inr ts :: error + string list) \<and> ts \<noteq> [])"
proof -
  have 1: "split '''' '''' = Some (Inr [''''])"
    by (simp add: split_def split_loop.simps find_str_def substr_def)
  from 1 split_result_nonempty[OF 1] show ?thesis by blast
qed

subsection \<open>C9: no token contains the delimiter\<close>

text \<open>
  C9. For every string \<open>str\<close> and every non-empty delimiter \<open>delim\<close>, \<open>split(str, delim)\<close>
  returns, and no element of the sequence it returns contains \<open>delim\<close> as a substring.
\<close>

theorem split_tokens_free_of_delim:
  assumes "delim \<noteq> []"
  shows "\<exists>ts. split str delim = Some (Inr ts) \<and> (\<forall>t \<in> set ts. \<not> sublist delim t)"
  using split_loop_total[OF assms, of 0 str "[]"] by (auto simp: split_def)

theorem split_tokens_free_of_delim_witness:
  "'','' \<noteq> [] \<and> split ''a,,b'' '','' = Some (Inr [''a'', '''', ''b'']) \<and>
   \<not> sublist '','' ''a'' \<and> \<not> sublist '','' '''' \<and> \<not> sublist '','' ''b''"
proof -
  have 1: "'','' \<noteq> []" by simp
  have 2: "split ''a,,b'' '','' = Some (Inr [''a'', '''', ''b''])"
    by (simp add: split_def split_loop.simps find_str_def substr_def)
  from split_tokens_free_of_delim[OF 1, of "''a,,b''"] 2
  have "\<forall>t \<in> set [''a'', '''', ''b'']. \<not> sublist '','' t" by simp
  with 1 2 show ?thesis by simp
qed

subsection \<open>C10: the keys come out in increasing order\<close>

text \<open>
  C10. For every ordered mapping \<open>m\<close>, the sequence \<open>keys(m)\<close> is strictly increasing in the
  order of the keys; in particular its elements are pairwise distinct.
\<close>

theorem keys_strictly_increasing: "sorted_wrt (<) (keys m) \<and> distinct (keys m)"
  by (simp add: keys_def keys_loop_eq strict_sorted_iff RBT.sorted_entries
      RBT.distinct_entries)

end
